theory Spec2Isabelle
  imports Complex_Main
begin

section \<open>SquiggleSync: sequencer, event store, HTTP read path and presence store\<close>

text \<open>
  A shallow embedding of the backend services \<^verbatim>\<open>SequenceManagerService\<close> and
  \<^verbatim>\<open>EventStoreService\<close>, of the \<^verbatim>\<open>GET /:roomId\<close> handler of the event-store router and
  of the frontend \<^verbatim>\<open>PresenceStore\<close>.

  Conventions of the model.
  \<^item> A JavaScript \<^verbatim>\<open>Map<string, V>\<close> is a map \<open>string \<rightharpoonup> V\<close>; \<^verbatim>\<open>get\<close> of a missing key
    (\<^verbatim>\<open>undefined\<close>) is \<open>None\<close>, \<^verbatim>\<open>delete\<close> is \<open>m(k := None)\<close>. Insertion order of the keys
    is not modelled; no function below depends on it.
  \<^item> Sequence numbers and timestamps are JavaScript numbers that only ever hold
    integers here; they are modelled as unbounded \<open>int\<close> (the loss of precision of a double
    above \<open>2^53\<close> is outside the model).
  \<^item> An optional field (\<^verbatim>\<open>sequence?: number\<close>) is an \<open>option\<close>.
  \<^item> \<^verbatim>\<open>Date.now()\<close> is an input of the operation that reads it.
  \<^item> A mutating method takes the state and returns the new state. The runtime is
    single-threaded and no method awaits, so concurrent callers are an interleaving of
    whole calls: a history is a list of calls.
  \<^item> Results are values: an array returned by a read method is the list it held at that
    moment, and two maps are equal when they hold the same entries.
\<close>

subsection \<open>SequenceManagerService\<close>

type_synonym sequences = "string \<rightharpoonup> int"

text \<open>
  \<^verbatim>\<open>x || 0\<close> on an optional number: \<^verbatim>\<open>undefined\<close> and \<open>0\<close> are falsy and give \<open>0\<close>, every
  other number is itself.
\<close>

definition or0 :: "int option \<Rightarrow> int" where
  "or0 v = (case v of None \<Rightarrow> 0 | Some n \<Rightarrow> (if n = 0 then 0 else n))"

text \<open>
  \<^verbatim>\<open>
  getNextSequence(roomId) {
      const current = this.sequences.get(roomId) || 0;
      const next = current + 1;
      this.sequences.set(roomId, next);
      return next;
  }
  \<close>
  The result is the returned number and the updated counter map.
\<close>

definition getNextSequence :: "sequences \<Rightarrow> string \<Rightarrow> int \<times> sequences" where
  "getNextSequence sq roomId =
     (let current = or0 (sq roomId);
          next = current + 1
      in (next, sq(roomId \<mapsto> next)))"

definition getCurrentSequence :: "sequences \<Rightarrow> string \<Rightarrow> int" where
  "getCurrentSequence sq roomId = or0 (sq roomId)"

definition resetSequence :: "sequences \<Rightarrow> string \<Rightarrow> sequences" where
  "resetSequence sq roomId = sq(roomId := None)"

text \<open>
  A client of the sequencer calls its three methods in any order and for any rooms.
  \<open>returned r sq calls\<close> runs the calls from the counter map \<open>sq\<close> and collects, in order,
  the numbers that the calls \<^verbatim>\<open>getNextSequence(r)\<close> returned.
\<close>

datatype seq_call = NextSequence string | CurrentSequence string | ResetSequence string

fun seq_step :: "sequences \<Rightarrow> seq_call \<Rightarrow> sequences" where
  "seq_step sq (NextSequence r) = snd (getNextSequence sq r)"
| "seq_step sq (CurrentSequence r) = sq"
| "seq_step sq (ResetSequence r) = resetSequence sq r"

fun returned :: "string \<Rightarrow> sequences \<Rightarrow> seq_call list \<Rightarrow> int list" where
  "returned r sq [] = []"
| "returned r sq (c # cs) =
     (if c = NextSequence r then [fst (getNextSequence sq r)] else []) @
     returned r (seq_step sq c) cs"


subsection \<open>WhiteboardEvent\<close>

text \<open>
  The tagged union \<^verbatim>\<open>WhiteboardEvent\<close>: the discriminant \<^verbatim>\<open>type\<close> with the fields of its
  variant is the \<open>payload\<close>; the fields of \<^verbatim>\<open>BaseEvent\<close> are the record's.
\<close>

datatype payload =
    DRAW_LINE "(real \<times> real) list" string real
  | DRAW_PATH "(real \<times> real) list" string real
  | ERASE real real real real
  | CLEAR_CANVAS
  | JOIN_ROOM
  | LEAVE_ROOM

record WhiteboardEvent =
  payload :: payload
  userId :: string
  roomId :: string
  timestamp :: int
  sequence :: "int option"

text \<open>
  An example input: a \<^verbatim>\<open>CLEAR_CANVAS\<close> event of user \<open>uid\<close> with the given sequence field,
  as a client may send it.
\<close>

definition exampleEvent :: "string \<Rightarrow> int option \<Rightarrow> WhiteboardEvent" where
  "exampleEvent uid sq =
     \<lparr>payload = CLEAR_CANVAS, userId = uid, roomId = ''room-1'', timestamp = 0, sequence = sq\<rparr>"

subsection \<open>EventStoreService\<close>

text \<open>
  The only place of the service that can throw is the read \<^verbatim>\<open>roomEvents[mid].sequence\<close> of
  the binary search: a \<^verbatim>\<open>TypeError\<close> when \<^verbatim>\<open>roomEvents[mid]\<close> is \<^verbatim>\<open>undefined\<close>.
\<close>

datatype error = TypeError

text \<open>
  \<^verbatim>\<open>
  while (left < right) {
      const mid = Math.floor((left + right) / 2);
      const midSeq = roomEvents[mid].sequence || 0;
      if (midSeq < eventSeq) { left = mid + 1; } else { right = mid; }
  }
  \<close>
  The loop, returning the final \<^verbatim>\<open>left\<close>.
\<close>

function insertEvent_loop :: "WhiteboardEvent list \<Rightarrow> int \<Rightarrow> nat \<Rightarrow> nat \<Rightarrow> error + nat" where
  "insertEvent_loop roomEvents eventSeq left right =
     (if left < right then
        (let mid = (left + right) div 2 in
         if mid < length roomEvents then
           (let midSeq = or0 (sequence (roomEvents ! mid)) in
            if midSeq < eventSeq
            then insertEvent_loop roomEvents eventSeq (mid + 1) right
            else insertEvent_loop roomEvents eventSeq left mid)
         else Inl TypeError)
      else Inr left)"
  by pat_completeness auto
termination
  by (relation "measure (\<lambda>(roomEvents, eventSeq, left, right). right - left)") auto

text \<open>
  \<^verbatim>\<open>roomEvents.splice(left, 0, event)\<close>: nothing is removed, \<open>event\<close> is put before index
  \<open>left\<close> (an index beyond the end is clamped to the end).
\<close>

definition splice0 :: "'a list \<Rightarrow> nat \<Rightarrow> 'a \<Rightarrow> 'a list" where
  "splice0 xs start item = take start xs @ [item] @ drop start xs"

definition insertEvent :: "WhiteboardEvent list \<Rightarrow> WhiteboardEvent \<Rightarrow> error + WhiteboardEvent list" where
  "insertEvent roomEvents event =
     (let eventSeq = or0 (sequence event) in
      case insertEvent_loop roomEvents eventSeq 0 (length roomEvents) of
        Inl err \<Rightarrow> Inl err
      | Inr left \<Rightarrow> Inr (splice0 roomEvents left event))"

text \<open>
  The state of an \<^verbatim>\<open>EventStoreService\<close> together with the \<^verbatim>\<open>SequenceManagerService\<close> it was
  constructed with.
\<close>

record EventStoreService =
  events :: "string \<rightharpoonup> WhiteboardEvent list"
  sequenceManager :: sequences

text \<open>
  \<^verbatim>\<open>new EventStoreService(new SequenceManagerService())\<close>
\<close>

definition newEventStore :: EventStoreService where
  "newEventStore = \<lparr>events = Map.empty, sequenceManager = Map.empty\<rparr>"

text \<open>
  \<^verbatim>\<open>
  addEvent(roomId, event) {
      const sequence = this.sequenceManager.getNextSequence(roomId);
      const enrichedEvent = { ...event, sequence, timestamp: Date.now() };
      if (!this.events.has(roomId)) { this.events.set(roomId, []); }
      const roomEvents = this.events.get(roomId)!;
      this.insertEvent(roomEvents, enrichedEvent);
      return enrichedEvent;
  }
  \<close>
  \<open>now\<close> is the value of \<^verbatim>\<open>Date.now()\<close>. The result is the new state and the returned event.
\<close>

definition addEvent ::
  "EventStoreService \<Rightarrow> string \<Rightarrow> WhiteboardEvent \<Rightarrow> int \<Rightarrow> error + (EventStoreService \<times> WhiteboardEvent)" where
  "addEvent s room event now =
     (let (seq, sm) = getNextSequence (sequenceManager s) room;
          enrichedEvent = event\<lparr>sequence := Some seq, timestamp := now\<rparr>;
          roomEvents = (case events s room of None \<Rightarrow> [] | Some xs \<Rightarrow> xs)
      in case insertEvent roomEvents enrichedEvent of
           Inl err \<Rightarrow> Inl err
         | Inr roomEvents' \<Rightarrow>
             Inr (\<lparr>events = (events s)(room \<mapsto> roomEvents'), sequenceManager = sm\<rparr>, enrichedEvent))"

text \<open>
  \<^verbatim>\<open>return this.events.get(roomId) || [];\<close> (an array, even an empty one, is truthy).
\<close>

definition getEvents :: "EventStoreService \<Rightarrow> string \<Rightarrow> WhiteboardEvent list" where
  "getEvents s room = (case events s room of None \<Rightarrow> [] | Some xs \<Rightarrow> xs)"

text \<open>
  The argument \<^verbatim>\<open>afterSequence\<close> of \<^verbatim>\<open>getEventsAfter\<close> comes from \<^verbatim>\<open>parseInt\<close>, which returns
  an integer, \<^verbatim>\<open>NaN\<close>, or \<^verbatim>\<open>Infinity\<close> and \<^verbatim>\<open>-Infinity\<close> for a run of digits beyond the range
  of a number. Every comparison with \<^verbatim>\<open>NaN\<close> is false, no sequence number is greater than
  \<^verbatim>\<open>Infinity\<close>, and every one is greater than \<^verbatim>\<open>-Infinity\<close>.
\<close>

datatype jsnum = NaN | Num int | Infinity | NegInfinity

fun greater :: "int \<Rightarrow> jsnum \<Rightarrow> bool" where
  "greater n NaN = False"
| "greater n (Num k) = (n > k)"
| "greater n Infinity = False"
| "greater n NegInfinity = True"

text \<open>
  \<^verbatim>\<open>
  const roomEvents = this.events.get(roomId) || [];
  return roomEvents.filter(event => event.sequence && event.sequence > afterSequence);
  \<close>
  \<^verbatim>\<open>event.sequence &&\<close> is falsy for a missing sequence and for \<open>0\<close>.
\<close>

definition getEventsAfter :: "EventStoreService \<Rightarrow> string \<Rightarrow> jsnum \<Rightarrow> WhiteboardEvent list" where
  "getEventsAfter s room afterSequence =
     (let roomEvents = (case events s room of None \<Rightarrow> [] | Some xs \<Rightarrow> xs)
      in filter (\<lambda>event. case sequence event of
                            None \<Rightarrow> False
                          | Some n \<Rightarrow> n \<noteq> 0 \<and> greater n afterSequence) roomEvents)"

text \<open>
  \<^verbatim>\<open>
  clearRoomEvents(roomId) {
      this.events.delete(roomId);
      this.sequenceManager.resetSequence(roomId);
  }
  \<close>
\<close>

definition clearRoomEvents :: "EventStoreService \<Rightarrow> string \<Rightarrow> EventStoreService" where
  "clearRoomEvents s room =
     \<lparr>events = (events s)(room := None),
      sequenceManager = resetSequence (sequenceManager s) room\<rparr>"

text \<open>
  The histories of a store. The two mutating methods of \<^verbatim>\<open>EventStoreService\<close> are called in
  any order and for any rooms; the sequencer the store was constructed with is an object
  of its own, so its methods may be called directly in between (\<open>Sequencer\<close>).
  \<open>run s calls\<close> is the state after the calls, or the error of the first call that throws.
\<close>

datatype call =
    AddEvent string WhiteboardEvent int
  | ClearRoomEvents string
  | Sequencer seq_call

fun step :: "EventStoreService \<Rightarrow> call \<Rightarrow> error + EventStoreService" where
  "step s (AddEvent room event now) =
     (case addEvent s room event now of Inl err \<Rightarrow> Inl err | Inr (s', stamped) \<Rightarrow> Inr s')"
| "step s (ClearRoomEvents room) = Inr (clearRoomEvents s room)"
| "step s (Sequencer c) = Inr (s\<lparr>sequenceManager := seq_step (sequenceManager s) c\<rparr>)"

fun run :: "EventStoreService \<Rightarrow> call list \<Rightarrow> error + EventStoreService" where
  "run s [] = Inr s"
| "run s (c # cs) = (case step s c of Inl err \<Rightarrow> Inl err | Inr s' \<Rightarrow> run s' cs)"

text \<open>The calls \<^verbatim>\<open>addEvent(room, ...)\<close> of a history.\<close>

fun is_add :: "string \<Rightarrow> call \<Rightarrow> bool" where
  "is_add r (AddEvent room event now) = (room = r)"
| "is_add r (ClearRoomEvents room) = False"
| "is_add r (Sequencer c) = False"

text \<open>
  The calls that reset or advance the counter of room \<open>r\<close> other than through
  \<^verbatim>\<open>addEvent\<close>: \<^verbatim>\<open>clearRoomEvents(r)\<close>, and \<^verbatim>\<open>getNextSequence(r)\<close> or \<^verbatim>\<open>resetSequence(r)\<close> called on
  the sequencer directly.
\<close>

fun disturbs :: "string \<Rightarrow> call \<Rightarrow> bool" where
  "disturbs r (AddEvent room event now) = False"
| "disturbs r (ClearRoomEvents room) = (room = r)"
| "disturbs r (Sequencer (NextSequence room)) = (room = r)"
| "disturbs r (Sequencer (ResetSequence room)) = (room = r)"
| "disturbs r (Sequencer (CurrentSequence room)) = False"

text \<open>
  Ascending order of the sequence field, as the binary search reads it
  (\<^verbatim>\<open>event.sequence || 0\<close>).
\<close>

abbreviation seqKey :: "WhiteboardEvent \<Rightarrow> int" where
  "seqKey e \<equiv> or0 (sequence e)"

definition ascending :: "WhiteboardEvent list \<Rightarrow> bool" where
  "ascending xs = sorted (map (\<lambda>e. or0 (sequence e)) xs)"

text \<open>
  The state that the methods maintain: every counter is at least 1, every stored log is
  ascending and each of its events carries a sequence number that is at least 1.
\<close>

definition wf_store :: "EventStoreService \<Rightarrow> bool" where
  "wf_store s \<longleftrightarrow>
     (\<forall>r v. sequenceManager s r = Some v \<longrightarrow> 1 \<le> v) \<and>
     (\<forall>r xs. events s r = Some xs \<longrightarrow>
        ascending xs \<and> (\<forall>e \<in> set xs. \<exists>n. sequence e = Some n \<and> 1 \<le> n))"

text \<open>
  The log of room \<open>r\<close> holds exactly the sequence numbers \<open>1, \<dots>, n\<close> in this order, and the
  counter of \<open>r\<close> stands at \<open>n\<close>.
\<close>

definition exact :: "EventStoreService \<Rightarrow> string \<Rightarrow> nat \<Rightarrow> bool" where
  "exact s r n \<longleftrightarrow>
     map sequence (getEvents s r) = map Some [1 .. int n] \<and> or0 (sequenceManager s r) = int n"

subsection \<open>The handler of \<^verbatim>\<open>GET /:roomId\<close> in the event-store router\<close>

text \<open>
  \<^verbatim>\<open>parseInt\<close> is a built-in of the language, not code of this repository. The handler takes
  it as a parameter, a function from the value of the query parameter to a number, and
  nothing is assumed of it: what is proved of the handler holds for every such function,
  the built-in among them.
\<close>

text \<open>
  \<^verbatim>\<open>
  router.get('/:roomId', (req, res) => {
      const { roomId } = req.params;
      const { after } = req.query;
      try {
          let events;
          if (after) {
              events = eventsStoreService.getEventsAfter(roomId, parseInt(after as string));
          } else {
              events = eventsStoreService.getEvents(roomId);
          }
          res.json({ roomId, events, count: events.length,
                     lastSequence: events[events.length - 1]?.sequence || 0 })
      } catch (error) { res.status(500).json({ error: 'Internal Server Error' }); }
  });
  \<close>
  The query parameter \<^verbatim>\<open>after\<close> is \<open>None\<close> when the query string has none and \<open>Some v\<close> with
  its value otherwise (\<^verbatim>\<open>?after=\<close> gives the empty string); the handler reads it as a string
  (\<^verbatim>\<open>after as string\<close>), and a repeated or nested parameter is outside the model.
  \<^verbatim>\<open>if (after)\<close> holds for a string that is not empty. Neither read method has a place that
  throws, so the \<^verbatim>\<open>catch\<close> branch is never taken and the model has the one reply.
\<close>

record reply =
  reply_roomId :: string
  reply_events :: "WhiteboardEvent list"
  count :: nat
  lastSequence :: int

definition getRoomEvents ::
  "(string \<Rightarrow> jsnum) \<Rightarrow> EventStoreService \<Rightarrow> string \<Rightarrow> string option \<Rightarrow> reply" where
  "getRoomEvents parseInt s room after =
     (let evs = (case after of
                   None \<Rightarrow> getEvents s room
                 | Some a \<Rightarrow> if a \<noteq> [] then getEventsAfter s room (parseInt a)
                            else getEvents s room)
      in \<lparr>reply_roomId = room,
          reply_events = evs,
          count = length evs,
          lastSequence = or0 (if evs = [] then None else sequence (last evs))\<rparr>)"

subsection \<open>PresenceStore\<close>

record UserPresence =
  userId :: string
  userName :: string
  color :: string
  joinedAt :: int

text \<open>
  The fields \<^verbatim>\<open>x\<close> and \<^verbatim>\<open>y\<close> of \<^verbatim>\<open>CursorPosition\<close> are named \<open>cursorX\<close> and \<open>cursorY\<close>, so
  that \<open>x\<close> and \<open>y\<close> stay variables.
\<close>

record CursorPosition =
  cursorX :: real
  cursorY :: real
  lastUpdate :: int

record PresenceStore =
  activeUsers :: "string \<rightharpoonup> UserPresence"
  userCursors :: "string \<rightharpoonup> CursorPosition"

definition newPresenceStore :: PresenceStore where
  "newPresenceStore = \<lparr>activeUsers = Map.empty, userCursors = Map.empty\<rparr>"

definition USER_COLORS :: "string list" where
  "USER_COLORS =
     [''#3B82F6'', ''#10B981'', ''#F59E0B'', ''#EF4444'', ''#8B5CF6'', ''#EC4899'',
      ''#06B6D4'', ''#84CC16'', ''#F97316'', ''#6366F1'', ''#14B8A6'', ''#A855F7'']"

text \<open>
  \<^verbatim>\<open>hash << 5\<close> converts \<^verbatim>\<open>hash\<close> to a signed 32-bit integer, shifts, and gives a signed
  32-bit integer; the subtraction and the addition around it are on numbers.
\<close>

definition toInt32 :: "int \<Rightarrow> int" where
  "toInt32 v = (v + 2 ^ 31) mod 2 ^ 32 - 2 ^ 31"

definition shiftLeft5 :: "int \<Rightarrow> int" where
  "shiftLeft5 v = toInt32 (toInt32 v * 32)"

text \<open>
  \<^verbatim>\<open>
  let hash = 0;
  for (let i = 0; i < userId.length; i++) {
    hash = userId.charCodeAt(i) + ((hash << 5) - hash);
  }
  const index = Math.abs(hash) % this.USER_COLORS.length;
  return this.USER_COLORS[index];
  \<close>
\<close>

definition getUserColor :: "string \<Rightarrow> string" where
  "getUserColor uid =
     (let hash = foldl (\<lambda>hash c. int (of_char c) + (shiftLeft5 hash - hash)) 0 uid;
          index = nat \<bar>hash\<bar> mod length USER_COLORS
      in USER_COLORS ! index)"

text \<open>
  \<^verbatim>\<open>
  addUser(userId, userName, color?) {
    const users = new Map(this._activeUsers());
    if (users.has(userId)) { return; }
    const userColor = color || this.getUserColor(userId);
    const presence = { userId, userName, color: userColor, joinedAt: Date.now() };
    users.set(userId, presence);
    this._activeUsers.set(users);
  }
  \<close>
  \<^verbatim>\<open>color || ...\<close>: a missing colour and the empty string are falsy.
\<close>

definition addUser :: "PresenceStore \<Rightarrow> string \<Rightarrow> string \<Rightarrow> string option \<Rightarrow> int \<Rightarrow> PresenceStore" where
  "addUser s uid name col now =
     (if activeUsers s uid \<noteq> None then s
      else
        (let userColor = (case col of
                            None \<Rightarrow> getUserColor uid
                          | Some c \<Rightarrow> if c \<noteq> [] then c else getUserColor uid);
             presence = \<lparr>userId = uid, userName = name, color = userColor, joinedAt = now\<rparr>
         in s\<lparr>activeUsers := (activeUsers s)(uid \<mapsto> presence)\<rparr>))"

text \<open>
  \<^verbatim>\<open>
  removeUser(userId) {
    const users = new Map(this._activeUsers());
    users.delete(userId);
    this._activeUsers.set(users);
    const cursors = new Map(this._userCursors());
    cursors.delete(userId);
    this._userCursors.set(cursors);
  }
  \<close>
\<close>

definition removeUser :: "PresenceStore \<Rightarrow> string \<Rightarrow> PresenceStore" where
  "removeUser s uid =
     \<lparr>activeUsers = (activeUsers s)(uid := None), userCursors = (userCursors s)(uid := None)\<rparr>"

text \<open>
  \<^verbatim>\<open>
  updateCursor(userId, x, y) {
    if (!this._activeUsers().has(userId)) { return; }
    const cursors = new Map(this._userCursors());
    cursors.set(userId, { x, y, lastUpdate: Date.now() });
    this._userCursors.set(cursors);
  }
  \<close>
\<close>

definition updateCursor :: "PresenceStore \<Rightarrow> string \<Rightarrow> real \<Rightarrow> real \<Rightarrow> int \<Rightarrow> PresenceStore" where
  "updateCursor s uid x y now =
     (if activeUsers s uid = None then s
      else s\<lparr>userCursors :=
               (userCursors s)(uid \<mapsto> \<lparr>cursorX = x, cursorY = y, lastUpdate = now\<rparr>)\<rparr>)"

definition clearAll :: "PresenceStore \<Rightarrow> PresenceStore" where
  "clearAll s = \<lparr>activeUsers = Map.empty, userCursors = Map.empty\<rparr>"

text \<open>The histories of a presence store: its four mutating methods, in any order.\<close>

datatype presence_call =
    AddUser string string "string option" int
  | RemoveUser string
  | UpdateCursor string real real int
  | ClearAll

fun presence_step :: "PresenceStore \<Rightarrow> presence_call \<Rightarrow> PresenceStore" where
  "presence_step s (AddUser uid name col now) = addUser s uid name col now"
| "presence_step s (RemoveUser uid) = removeUser s uid"
| "presence_step s (UpdateCursor uid x y now) = updateCursor s uid x y now"
| "presence_step s ClearAll = clearAll s"

fun presence_run :: "PresenceStore \<Rightarrow> presence_call list \<Rightarrow> PresenceStore" where
  "presence_run s [] = s"
| "presence_run s (c # cs) = presence_run (presence_step s c) cs"

text \<open>Every user with a cursor entry is an active user.\<close>

definition contained :: "PresenceStore \<Rightarrow> bool" where
  "contained s \<longleftrightarrow> dom (userCursors s) \<subseteq> dom (activeUsers s)"

section \<open>Properties\<close>

subsection \<open>Sequencer\<close>

lemma or0_eq: "or0 v = (case v of None \<Rightarrow> 0 | Some n \<Rightarrow> n)"
  by (simp add: or0_def split: option.splits)

lemma fst_getNextSequence: "fst (getNextSequence sq r) = or0 (sq r) + 1"
  by (simp add: getNextSequence_def Let_def)

lemma snd_getNextSequence: "snd (getNextSequence sq r) = sq(r \<mapsto> or0 (sq r) + 1)"
  by (simp add: getNextSequence_def Let_def)

lemma returned_from:
  "ResetSequence r \<notin> set cs \<Longrightarrow>
   returned r sq cs = [or0 (sq r) + 1 .. or0 (sq r) + int (count_list cs (NextSequence r))]"
proof (induction cs arbitrary: sq)
  case Nil
  then show ?case by simp
next
  case (Cons c cs)
  then have nr: "ResetSequence r \<notin> set cs" and c: "c \<noteq> ResetSequence r" by auto
  show ?case
  proof (cases "c = NextSequence r")
    case True
    have "or0 (seq_step sq c r) = or0 (sq r) + 1"
      using True by (simp add: snd_getNextSequence or0_eq)
    then show ?thesis
      using Cons.IH [OF nr, of "seq_step sq c"] True
      by (simp add: fst_getNextSequence upto_rec1 [of "or0 (sq r) + 1"] add.assoc)
  next
    case False
    have "seq_step sq c r = sq r"
      using False c by (cases c) (auto simp: snd_getNextSequence resetSequence_def)
    then show ?thesis
      using Cons.IH [OF nr, of "seq_step sq c"] False by simp
  qed
qed

text \<open>
  Claim C1 (monotonic sequencing). Take any history of calls to the sequencer, for any
  rooms, in which the counter of room \<open>r\<close> is not reset, started in a fresh sequencer or
  right after \<^verbatim>\<open>resetSequence(r)\<close> in any state. The numbers returned by the calls
  \<^verbatim>\<open>getNextSequence(r)\<close>, in the order of the calls, are \<open>1, 2, \<dots>, n\<close>, where \<open>n\<close> is the
  number of those calls: the \<open>n\<close>-th call returns \<open>n\<close>, with no gap and strictly increasing.
\<close>

theorem C1_monotonic_sequencing:
  "ResetSequence r \<notin> set cs \<Longrightarrow>
   returned r Map.empty cs = [1 .. int (count_list cs (NextSequence r))] \<and>
   returned r (resetSequence sq r) cs = [1 .. int (count_list cs (NextSequence r))]"
  using returned_from [of r cs Map.empty] returned_from [of r cs "resetSequence sq r"]
  by (simp add: or0_eq resetSequence_def)

theorem C1_monotonic_sequencing_witness:
  "ResetSequence ''a'' \<notin>
     set [NextSequence ''a'', NextSequence ''b'', CurrentSequence ''a'', NextSequence ''a'',
          ResetSequence ''b'', NextSequence ''a''] \<and>
   returned ''a'' Map.empty
     [NextSequence ''a'', NextSequence ''b'', CurrentSequence ''a'', NextSequence ''a'',
      ResetSequence ''b'', NextSequence ''a''] = [1, 2, 3] \<and>
   returned ''a'' (resetSequence [''a'' \<mapsto> 7] ''a'')
     [NextSequence ''a'', NextSequence ''b'', CurrentSequence ''a'', NextSequence ''a'',
      ResetSequence ''b'', NextSequence ''a''] = [1, 2, 3]"
  using C1_monotonic_sequencing [of "''a''"
     "[NextSequence ''a'', NextSequence ''b'', CurrentSequence ''a'', NextSequence ''a'',
       ResetSequence ''b'', NextSequence ''a'']" "[''a'' \<mapsto> 7]"]
  by (simp add: upto_rec1)

subsection \<open>The binary search and the insertion\<close>



lemma insertEvent_loop_bounds:
  "left \<le> right \<Longrightarrow> right \<le> length xs \<Longrightarrow>
   \<exists>i. insertEvent_loop xs k left right = Inr i \<and> left \<le> i \<and> i \<le> right"
proof (induction xs k left right rule: insertEvent_loop.induct)
  case (1 roomEvents eventSeq left right)
  show ?case
  proof (cases "left < right")
    case False
    then show ?thesis using "1.prems" by (simp add: insertEvent_loop.simps [of roomEvents eventSeq left right])
  next
    case True
    define mid where "mid = (left + right) div 2"
    have m: "left \<le> mid" "mid < right" "mid < length roomEvents"
      using True "1.prems" by (auto simp: mid_def)
    show ?thesis
    proof (cases "seqKey (roomEvents ! mid) < eventSeq")
      case lt: True
      from "1.IH"(1) [OF True mid_def m(3) refl lt] m "1.prems"
      obtain i where "insertEvent_loop roomEvents eventSeq (mid + 1) right = Inr i" "mid + 1 \<le> i" "i \<le> right"
        by auto
      then show ?thesis using True m lt
        by (subst insertEvent_loop.simps) (auto simp: Let_def mid_def)
    next
      case ge: False
      from "1.IH"(2) [OF True mid_def m(3) refl ge] m "1.prems"
      obtain i where "insertEvent_loop roomEvents eventSeq left mid = Inr i" "left \<le> i" "i \<le> mid"
        by auto
      then show ?thesis using True m ge
        by (subst insertEvent_loop.simps) (auto simp: Let_def mid_def)
    qed
  qed
qed

lemma insertEvent_loop_pos:
  "ascending xs \<Longrightarrow> left \<le> right \<Longrightarrow> right \<le> length xs \<Longrightarrow>
   (\<forall>j < left. seqKey (xs ! j) < k) \<Longrightarrow> (\<forall>j. right \<le> j \<and> j < length xs \<longrightarrow> k \<le> seqKey (xs ! j)) \<Longrightarrow>
   insertEvent_loop xs k left right = Inr i \<Longrightarrow>
   (\<forall>j < i. seqKey (xs ! j) < k) \<and> (\<forall>j. i \<le> j \<and> j < length xs \<longrightarrow> k \<le> seqKey (xs ! j))"
proof (induction xs k left right rule: insertEvent_loop.induct)
  case (1 roomEvents eventSeq left right)
  show ?case
  proof (cases "left < right")
    case False
    then have "i = left" "left = right" using "1.prems"
      by (simp_all add: insertEvent_loop.simps [of roomEvents eventSeq left right])
    then show ?thesis using "1.prems" by simp
  next
    case True
    define mid where "mid = (left + right) div 2"
    have m: "left \<le> mid" "mid < right" "mid < length roomEvents"
      using True "1.prems" by (auto simp: mid_def)
    have srt: "\<And>a b. a \<le> b \<Longrightarrow> b < length roomEvents \<Longrightarrow> seqKey (roomEvents ! a) \<le> seqKey (roomEvents ! b)"
      using "1.prems"(1) unfolding ascending_def
      by (metis (no_types, lifting) length_map nth_map order_le_less_trans sorted_nth_mono)
    show ?thesis
    proof (cases "seqKey (roomEvents ! mid) < eventSeq")
      case lt: True
      have eq: "insertEvent_loop roomEvents eventSeq (mid + 1) right = Inr i"
        using "1.prems"(6) True m lt
        by (subst (asm) insertEvent_loop.simps) (auto simp: Let_def mid_def)
      have below: "\<forall>j < mid + 1. seqKey (roomEvents ! j) < eventSeq"
      proof (intro allI impI)
        fix j assume "j < mid + 1"
        then have "seqKey (roomEvents ! j) \<le> seqKey (roomEvents ! mid)" using srt [of j mid] m by simp
        then show "seqKey (roomEvents ! j) < eventSeq" using lt by simp
      qed
      show ?thesis
        using "1.IH"(1) [OF True mid_def m(3) refl lt "1.prems"(1) _ "1.prems"(3) below "1.prems"(5) eq] m
        by simp
    next
      case ge: False
      have eq: "insertEvent_loop roomEvents eventSeq left mid = Inr i"
        using "1.prems"(6) True m ge
        by (subst (asm) insertEvent_loop.simps) (auto simp: Let_def mid_def)
      have above: "\<forall>j. mid \<le> j \<and> j < length roomEvents \<longrightarrow> eventSeq \<le> seqKey (roomEvents ! j)"
      proof (intro allI impI)
        fix j assume "mid \<le> j \<and> j < length roomEvents"
        then have "seqKey (roomEvents ! mid) \<le> seqKey (roomEvents ! j)" using srt [of mid j] by simp
        then show "eventSeq \<le> seqKey (roomEvents ! j)" using ge by simp
      qed
      show ?thesis
        using "1.IH"(2) [OF True mid_def m(3) refl ge "1.prems"(1) m(1) _ "1.prems"(4) above eq] m
        by simp
    qed
  qed
qed



lemma ascending_splice0:
  assumes "ascending xs"
    and lo: "\<forall>j < i. seqKey (xs ! j) < k" and hi: "\<forall>j. i \<le> j \<and> j < length xs \<longrightarrow> k \<le> seqKey (xs ! j)"
    and i: "i \<le> length xs" and k: "seqKey e = k"
  shows "ascending (splice0 xs i e)"
proof -
  have s: "sorted (map seqKey xs)" using assms(1) by (simp add: ascending_def)
  have xs: "map seqKey xs = map seqKey (take i xs) @ map seqKey (drop i xs)"
    by (metis append_take_drop_id map_append)
  have st: "sorted (map seqKey (take i xs))" and sd: "sorted (map seqKey (drop i xs))"
    and cross: "\<forall>a \<in> set (take i xs). \<forall>b \<in> set (drop i xs). seqKey a \<le> seqKey b"
    using s by (subst (asm) xs, simp add: sorted_append)+
  have a: "\<forall>a \<in> set (take i xs). seqKey a \<le> k"
  proof
    fix a assume "a \<in> set (take i xs)"
    then obtain j where "j < length (take i xs)" "take i xs ! j = a" by (auto simp: in_set_conv_nth)
    then show "seqKey a \<le> k" using lo i by force
  qed
  have b: "\<forall>b \<in> set (drop i xs). k \<le> seqKey b"
  proof
    fix b assume "b \<in> set (drop i xs)"
    then obtain j where "j < length (drop i xs)" "drop i xs ! j = b" by (auto simp: in_set_conv_nth)
    then show "k \<le> seqKey b" using hi i by force
  qed
  show ?thesis
    unfolding ascending_def splice0_def
    using st sd cross a b k by (auto simp: sorted_append)
qed

lemma insertEvent_total:
  "\<exists>i \<le> length xs. insertEvent xs e = Inr (splice0 xs i e)"
proof -
  obtain i where "insertEvent_loop xs (seqKey e) 0 (length xs) = Inr i" "i \<le> length xs"
    using insertEvent_loop_bounds [of 0 "length xs" xs "seqKey e"] by auto
  then show ?thesis by (auto simp: insertEvent_def)
qed

lemma insertEvent_ascending:
  assumes "ascending xs" and "insertEvent xs e = Inr ys"
  shows "ascending ys"
proof -
  obtain i where i: "insertEvent_loop xs (seqKey e) 0 (length xs) = Inr i" "i \<le> length xs"
    using insertEvent_loop_bounds [of 0 "length xs" xs "seqKey e"] by auto
  have "(\<forall>j < i. seqKey (xs ! j) < seqKey e) \<and> (\<forall>j. i \<le> j \<and> j < length xs \<longrightarrow> seqKey e \<le> seqKey (xs ! j))"
    using insertEvent_loop_pos [OF assms(1) _ _ _ _ i(1)] by simp
  then have "ascending (splice0 xs i e)"
    using ascending_splice0 [OF assms(1) _ _ i(2) refl] by blast
  then show ?thesis using assms(2) i(1) by (simp add: insertEvent_def)
qed

lemma set_splice0: "set (splice0 xs i e) = insert e (set xs)"
proof -
  have "set xs = set (take i xs) \<union> set (drop i xs)"
    by (metis append_take_drop_id set_append)
  then show ?thesis by (auto simp: splice0_def)
qed

lemma length_splice0: "length (splice0 xs i e) = Suc (length xs)"
  by (simp add: splice0_def)

lemma wf_new: "wf_store newEventStore"
  by (simp add: wf_store_def newEventStore_def)

lemma or0_nonneg: "\<forall>v. m r = Some v \<longrightarrow> 1 \<le> v \<Longrightarrow> 0 \<le> or0 (m r)"
  by (cases "m r") (auto simp: or0_eq)

lemma addEvent_result:
  "\<exists>i \<le> length (getEvents s r).
     addEvent s r e now =
       Inr (\<lparr>events = (events s)(r \<mapsto> splice0 (getEvents s r) i
                (e\<lparr>sequence := Some (or0 (sequenceManager s r) + 1), timestamp := now\<rparr>)),
             sequenceManager = (sequenceManager s)(r \<mapsto> or0 (sequenceManager s r) + 1)\<rparr>,
            e\<lparr>sequence := Some (or0 (sequenceManager s r) + 1), timestamp := now\<rparr>)"
proof -
  let ?e = "e\<lparr>sequence := Some (or0 (sequenceManager s r) + 1), timestamp := now\<rparr>"
  obtain i where "i \<le> length (getEvents s r)" "insertEvent (getEvents s r) ?e = Inr (splice0 (getEvents s r) i ?e)"
    using insertEvent_total [of "getEvents s r" ?e] by auto
  then show ?thesis
    by (auto simp: addEvent_def getNextSequence_def Let_def getEvents_def)
qed

lemma wf_addEvent:
  assumes "wf_store s" and "addEvent s r e now = Inr (s', e')"
  shows "wf_store s'"
proof -
  let ?n = "or0 (sequenceManager s r) + 1"
  let ?e = "e\<lparr>sequence := Some ?n, timestamp := now\<rparr>"
  have n: "1 \<le> ?n" using assms(1) or0_nonneg [of "sequenceManager s" r] by (simp add: wf_store_def)
  have asc: "ascending (getEvents s r)" and ok: "\<forall>x \<in> set (getEvents s r). \<exists>n. sequence x = Some n \<and> 1 \<le> n"
    using assms(1) unfolding wf_store_def getEvents_def
    by (cases "events s r"; simp add: ascending_def; blast)+
  obtain ys where ys: "insertEvent (getEvents s r) ?e = Inr ys"
    using insertEvent_total [of "getEvents s r" ?e] by auto
  then have s': "s' = \<lparr>events = (events s)(r \<mapsto> ys), sequenceManager = (sequenceManager s)(r \<mapsto> ?n)\<rparr>"
    using assms(2) by (auto simp: addEvent_def getNextSequence_def Let_def getEvents_def)
  have a: "ascending ys" using insertEvent_ascending [OF asc ys] .
  have "set ys = insert ?e (set (getEvents s r))"
    using ys insertEvent_total [of "getEvents s r" ?e] by (auto simp: set_splice0)
  then have b: "\<forall>x \<in> set ys. \<exists>n. sequence x = Some n \<and> 1 \<le> n" using ok n by auto
  show ?thesis using assms(1) a b n unfolding s' wf_store_def by auto
qed

lemma wf_step: "wf_store s \<Longrightarrow> step s c = Inr s' \<Longrightarrow> wf_store s'"
proof (cases c)
  case (AddEvent r e now)
  assume "wf_store s" "step s c = Inr s'"
  then show ?thesis using AddEvent wf_addEvent [of s r e now s']
    by (auto split: sum.splits)
next
  case (ClearRoomEvents r)
  assume "wf_store s" "step s c = Inr s'"
  then show ?thesis using ClearRoomEvents
    by (auto simp: wf_store_def clearRoomEvents_def resetSequence_def split: if_splits)
next
  case (Sequencer q)
  assume "wf_store s" "step s c = Inr s'"
  then show ?thesis using Sequencer or0_nonneg [of "sequenceManager s"]
    by (cases q) (auto simp: wf_store_def snd_getNextSequence resetSequence_def split: if_splits)
qed

lemma step_total: "\<exists>s'. step s c = Inr s'"
proof (cases c)
  case (AddEvent r e now)
  obtain s' e' where "addEvent s r e now = Inr (s', e')"
    using addEvent_result [of s r e now] by blast
  then show ?thesis using AddEvent by simp
qed simp_all

lemma run_total_wf: "wf_store s \<Longrightarrow> \<exists>s'. run s cs = Inr s' \<and> wf_store s'"
proof (induction cs arbitrary: s)
  case Nil
  then show ?case by simp
next
  case (Cons c cs)
  obtain s1 where s1: "step s c = Inr s1" using step_total by blast
  then have "wf_store s1" using Cons.prems wf_step by blast
  then show ?case using Cons.IH [of s1] s1 by simp
qed

text \<open>The example of the service's header: events 1 and 3 are stored, event 2 arrives late.\<close>

lemma insertEvent_example:
  "insertEvent [exampleEvent ''a'' (Some 1), exampleEvent ''a'' (Some 3)] (exampleEvent ''b'' (Some 2)) =
   Inr [exampleEvent ''a'' (Some 1), exampleEvent ''b'' (Some 2), exampleEvent ''a'' (Some 3)]"
  by code_simp

subsection \<open>The states a store reaches, and the log under \<^verbatim>\<open>addEvent\<close> alone\<close>

lemma run_new: "\<exists>s. run newEventStore calls = Inr s \<and> wf_store s"
  using run_total_wf [OF wf_new] .

lemma wf_sequences:
  assumes "wf_store s"
  shows "map sequence (getEvents s r) = map Some (map seqKey (getEvents s r))"
    and "sorted (map seqKey (getEvents s r))"
    and "\<forall>e \<in> set (getEvents s r). \<exists>n. sequence e = Some n \<and> 1 \<le> n"
proof -
  show 3: "\<forall>e \<in> set (getEvents s r). \<exists>n. sequence e = Some n \<and> 1 \<le> n"
    using assms unfolding wf_store_def getEvents_def by (cases "events s r"; simp; blast)
  show "sorted (map seqKey (getEvents s r))"
    using assms unfolding wf_store_def getEvents_def by (cases "events s r"; simp add: ascending_def; blast)
  show "map sequence (getEvents s r) = map Some (map seqKey (getEvents s r))"
    using 3 by (auto simp: or0_eq)
qed

lemma insertEvent_at_end:
  assumes asc: "ascending xs" and below: "\<forall>x \<in> set xs. seqKey x < seqKey e"
  shows "insertEvent xs e = Inr (xs @ [e])"
proof -
  obtain i where i: "insertEvent_loop xs (seqKey e) 0 (length xs) = Inr i" "i \<le> length xs"
    using insertEvent_loop_bounds [of 0 "length xs" xs "seqKey e"] by auto
  have hi: "\<forall>j. i \<le> j \<and> j < length xs \<longrightarrow> seqKey e \<le> seqKey (xs ! j)"
    using insertEvent_loop_pos [OF asc _ _ _ _ i(1)] by simp
  have "i = length xs"
  proof (rule ccontr)
    assume "i \<noteq> length xs"
    then have "i < length xs" using i(2) by simp
    then have "seqKey e \<le> seqKey (xs ! i)" "xs ! i \<in> set xs" using hi by auto
    then show False using below by force
  qed
  then show ?thesis using i(1) by (simp add: insertEvent_def splice0_def)
qed

lemma upto_Suc: "[1 .. 1 + int n] = [1 .. int n] @ [int n + 1]"
  using upto_rec2 [of 1 "int n + 1"] by (simp add: add.commute)

lemma exact_addEvent:
  assumes "exact s r n" and "addEvent s r e now = Inr (s', e')"
  shows "exact s' r (Suc n)"
proof -
  let ?e = "e\<lparr>sequence := Some (int n + 1), timestamp := now\<rparr>"
  have seqs: "map sequence (getEvents s r) = map Some [1 .. int n]" and cur: "or0 (sequenceManager s r) = int n"
    using assms(1) by (simp_all add: exact_def)
  have keys: "map seqKey (getEvents s r) = [1 .. int n]"
  proof -
    have "map seqKey (getEvents s r) = map or0 (map sequence (getEvents s r))" by simp
    also have "\<dots> = [1 .. int n]" unfolding seqs by (simp add: or0_eq map_idI)
    finally show ?thesis .
  qed
  have asc: "ascending (getEvents s r)" unfolding ascending_def keys by simp
  have below: "\<forall>x \<in> set (getEvents s r). seqKey x < seqKey ?e"
  proof
    fix x assume "x \<in> set (getEvents s r)"
    then have "seqKey x \<in> set (map seqKey (getEvents s r))" by (simp del: keys)
    then show "seqKey x < seqKey ?e" unfolding keys by (simp add: or0_eq)
  qed
  have ins: "insertEvent (getEvents s r) ?e = Inr (getEvents s r @ [?e])"
    using insertEvent_at_end [OF asc below] .
  have s': "s' = \<lparr>events = (events s)(r \<mapsto> getEvents s r @ [?e]),
                   sequenceManager = (sequenceManager s)(r \<mapsto> int n + 1)\<rparr>"
    using assms(2) ins cur by (auto simp: addEvent_def getNextSequence_def Let_def getEvents_def)
  show ?thesis
    unfolding exact_def s' by (simp add: getEvents_def [of "\<lparr>events = _, sequenceManager = _\<rparr>"] seqs upto_Suc or0_eq)
qed

lemma exact_other:
  assumes "exact s r n" and "events s' r = events s r" and "sequenceManager s' r = sequenceManager s r"
  shows "exact s' r n"
  using assms by (simp add: exact_def getEvents_def)

lemma addEvent_other:
  assumes "addEvent s room e now = Inr (s', e')" and "room \<noteq> r"
  shows "events s' r = events s r \<and> sequenceManager s' r = sequenceManager s r"
  using assms by (auto simp: addEvent_def getNextSequence_def Let_def split: sum.splits)

lemma exact_step:
  assumes "exact s r n" and "\<not> disturbs r c" and "step s c = Inr s'"
  shows "exact s' r (if is_add r c then Suc n else n)"
proof (cases c)
  case (AddEvent room e now)
  then obtain e' where a: "addEvent s room e now = Inr (s', e')"
    using assms(3) by (auto split: sum.splits)
  show ?thesis
  proof (cases "room = r")
    case True
    then show ?thesis using exact_addEvent [OF assms(1)] a AddEvent by simp
  next
    case False
    then show ?thesis using exact_other [OF assms(1)] addEvent_other [OF a False] AddEvent by simp
  qed
next
  case (ClearRoomEvents room)
  then show ?thesis using assms
    by (auto intro!: exact_other [OF assms(1)] simp: clearRoomEvents_def resetSequence_def)
next
  case (Sequencer q)
  then show ?thesis using assms
    by (cases q) (auto intro!: exact_other [OF assms(1)] simp: snd_getNextSequence resetSequence_def)
qed

lemma exact_run:
  assumes "exact s r n" and "\<not> list_ex (disturbs r) cs"
  shows "\<exists>s'. run s cs = Inr s' \<and> exact s' r (n + length (filter (is_add r) cs))"
  using assms
proof (induction cs arbitrary: s n)
  case Nil
  then show ?case by simp
next
  case (Cons c cs)
  obtain s1 where s1: "step s c = Inr s1" using step_total by blast
  have "exact s1 r (if is_add r c then Suc n else n)"
    using exact_step [OF Cons.prems(1) _ s1] Cons.prems(2) by simp
  then show ?case using Cons.IH [of s1 "if is_add r c then Suc n else n"] Cons.prems(2) s1
    by (cases "is_add r c") auto
qed

subsection \<open>The claims about the event store\<close>

lemma run_total: "\<exists>s'. run s cs = Inr s'"
proof (induction cs arbitrary: s)
  case Nil
  then show ?case by simp
next
  case (Cons c cs)
  obtain s1 where "step s c = Inr s1" using step_total by blast
  then show ?case using Cons.IH [of s1] by simp
qed

lemma insertEvent_set_length:
  assumes "insertEvent xs e = Inr ys"
  shows "set ys = insert e (set xs) \<and> length ys = Suc (length xs)"
  using assms insertEvent_total [of xs e] by (auto simp: set_splice0 length_splice0)

text \<open>
  Claim C2 (sorted invariant). After any history of calls from a new store (events added
  to any rooms in any order, rooms cleared, and the sequencer called directly in between),
  every event of the log that \<^verbatim>\<open>getEvents(r)\<close> returns carries a sequence number, and these
  numbers are in ascending order. And whatever sequence value an event carries when it
  reaches \<^verbatim>\<open>insertEvent\<close> (none, zero, negative, or one already in the log), inserting it
  into an ascending log does not throw and gives an ascending log with exactly that one
  event more.
\<close>

theorem C2_sorted_invariant:
  "(\<exists>s ns. run newEventStore calls = Inr s \<and>
            map sequence (getEvents s r) = map Some ns \<and> sorted ns) \<and>
   (ascending xs \<longrightarrow>
      (\<exists>ys. insertEvent xs e = Inr ys \<and> ascending ys \<and>
            set ys = insert e (set xs) \<and> length ys = Suc (length xs)))"
proof
  obtain s where s: "run newEventStore calls = Inr s" "wf_store s" using run_new by blast
  show "\<exists>s ns. run newEventStore calls = Inr s \<and>
            map sequence (getEvents s r) = map Some ns \<and> sorted ns"
    using s(1) wf_sequences(1,2) [OF s(2), of r] by blast
next
  show "ascending xs \<longrightarrow>
      (\<exists>ys. insertEvent xs e = Inr ys \<and> ascending ys \<and>
            set ys = insert e (set xs) \<and> length ys = Suc (length xs))"
  proof
    assume a: "ascending xs"
    obtain ys where ys: "insertEvent xs e = Inr ys" using insertEvent_total by blast
    then show "\<exists>ys. insertEvent xs e = Inr ys \<and> ascending ys \<and>
            set ys = insert e (set xs) \<and> length ys = Suc (length xs)"
      using insertEvent_ascending [OF a ys] insertEvent_set_length [OF ys] by simp
  qed
qed

theorem C2_sorted_invariant_witness:
  "(\<exists>s ns. run newEventStore
       [AddEvent ''room-1'' (exampleEvent ''a'' None) 10,
        AddEvent ''room-1'' (exampleEvent ''b'' (Some 7)) 11,
        Sequencer (ResetSequence ''room-1''),
        AddEvent ''room-1'' (exampleEvent ''a'' None) 12] = Inr s \<and>
      map sequence (getEvents s ''room-1'') = map Some ns \<and> sorted ns) \<and>
   ascending [exampleEvent ''a'' (Some 1), exampleEvent ''a'' (Some 3)] \<and>
   (\<exists>ys. insertEvent [exampleEvent ''a'' (Some 1), exampleEvent ''a'' (Some 3)]
            (exampleEvent ''b'' (Some 2)) = Inr ys \<and>
         ascending ys \<and>
         set ys = insert (exampleEvent ''b'' (Some 2))
                    (set [exampleEvent ''a'' (Some 1), exampleEvent ''a'' (Some 3)]) \<and>
         length ys = Suc (length [exampleEvent ''a'' (Some 1), exampleEvent ''a'' (Some 3)]))"
proof -
  have a: "ascending [exampleEvent ''a'' (Some 1), exampleEvent ''a'' (Some 3)]"
    by (simp add: ascending_def exampleEvent_def or0_def)
  show ?thesis
    using a C2_sorted_invariant [of
       "[AddEvent ''room-1'' (exampleEvent ''a'' None) 10,
         AddEvent ''room-1'' (exampleEvent ''b'' (Some 7)) 11,
         Sequencer (ResetSequence ''room-1''),
         AddEvent ''room-1'' (exampleEvent ''a'' None) 12]"
       "''room-1''" "[exampleEvent ''a'' (Some 1), exampleEvent ''a'' (Some 3)]"
       "exampleEvent ''b'' (Some 2)"]
    by blast
qed

lemma getEventsAfter_wf:
  assumes "wf_store s"
  shows "getEventsAfter s r (Num k) =
         filter (\<lambda>e. case sequence e of None \<Rightarrow> False | Some n \<Rightarrow> k < n) (getEvents s r)"
proof -
  have "\<forall>e \<in> set (getEvents s r). \<exists>n. sequence e = Some n \<and> 1 \<le> n"
    using wf_sequences(3) [OF assms] .
  then have "filter (\<lambda>e. case sequence e of None \<Rightarrow> False | Some n \<Rightarrow> n \<noteq> 0 \<and> greater n (Num k)) (getEvents s r)
           = filter (\<lambda>e. case sequence e of None \<Rightarrow> False | Some n \<Rightarrow> k < n) (getEvents s r)"
    by (intro filter_cong) auto
  then show ?thesis by (simp add: getEventsAfter_def getEvents_def)
qed

lemma getEventsAfter_0_wf:
  assumes "wf_store s"
  shows "getEventsAfter s r (Num 0) = getEvents s r"
proof -
  have "\<forall>e \<in> set (getEvents s r). \<exists>n. sequence e = Some n \<and> 1 \<le> n"
    using wf_sequences(3) [OF assms] .
  then have "filter (\<lambda>e. case sequence e of None \<Rightarrow> False | Some n \<Rightarrow> (0::int) < n) (getEvents s r) = getEvents s r"
    by (intro filter_True) auto
  then show ?thesis using getEventsAfter_wf [OF assms, of r 0] by simp
qed

text \<open>
  Claim C3 (incremental catch-up). After any history of calls from a new store, for every
  room \<open>r\<close> and every integer \<open>k\<close>, \<^verbatim>\<open>getEventsAfter(r, k)\<close> is the list \<^verbatim>\<open>getEvents(r)\<close>
  restricted to the events whose sequence is greater than \<open>k\<close>, in the same order, which
  is ascending; and \<^verbatim>\<open>getEventsAfter(r, 0)\<close> is \<^verbatim>\<open>getEvents(r)\<close>.
\<close>

theorem C3_incremental_catch_up:
  "\<exists>s. run newEventStore calls = Inr s \<and>
       getEventsAfter s r (Num k) =
         filter (\<lambda>e. case sequence e of None \<Rightarrow> False | Some n \<Rightarrow> k < n) (getEvents s r) \<and>
       sorted (map seqKey (getEventsAfter s r (Num k))) \<and>
       getEventsAfter s r (Num 0) = getEvents s r"
proof -
  obtain s where s: "run newEventStore calls = Inr s" "wf_store s" using run_new by blast
  have "sorted (map seqKey (filter (\<lambda>e. case sequence e of None \<Rightarrow> False | Some n \<Rightarrow> k < n) (getEvents s r)))"
    using wf_sequences(2) [OF s(2), of r] by (rule sorted_filter)
  then show ?thesis
    using s(1) getEventsAfter_wf [OF s(2)] getEventsAfter_0_wf [OF s(2)] by auto
qed

lemma exact_fresh: "events s r = None \<Longrightarrow> sequenceManager s r = None \<Longrightarrow> exact s r 0"
  by (simp add: exact_def getEvents_def or0_eq)

lemma exact_log:
  assumes "exact s r n"
  shows "map sequence (getEvents s r) = map Some [1 .. int n] \<and> length (getEvents s r) = n"
proof -
  have m: "map sequence (getEvents s r) = map Some [1 .. int n]" using assms by (simp add: exact_def)
  have "length (map sequence (getEvents s r)) = length (map Some [1 .. int n])"
    by (simp only: m)
  then have "length (getEvents s r) = n" by simp
  then show ?thesis using m by blast
qed

text \<open>
  Claim C4 (no reuse, no skips, the caller cannot set the sequence). Start in a new store,
  or right after \<^verbatim>\<open>clearRoomEvents(r)\<close> in any state, and take any history in which the
  counter of room \<open>r\<close> is touched by \<^verbatim>\<open>addEvent\<close> only (other rooms are used freely). If the
  history has \<open>n\<close> calls \<^verbatim>\<open>addEvent(r, ...)\<close>, with any events, whatever sequence values they
  carry, then the log of \<open>r\<close> has exactly \<open>n\<close> events and their sequence fields are
  \<open>1, 2, \<dots>, n\<close> in this order.
\<close>

theorem C4_no_reuse_no_skips:
  "\<not> list_ex (disturbs r) calls \<Longrightarrow>
   (\<exists>s. run newEventStore calls = Inr s \<and>
        map sequence (getEvents s r) = map Some [1 .. int (length (filter (is_add r) calls))] \<and>
        length (getEvents s r) = length (filter (is_add r) calls)) \<and>
   (\<exists>s. run (clearRoomEvents s0 r) calls = Inr s \<and>
        map sequence (getEvents s r) = map Some [1 .. int (length (filter (is_add r) calls))] \<and>
        length (getEvents s r) = length (filter (is_add r) calls))"
proof -
  assume nd: "\<not> list_ex (disturbs r) calls"
  have a: "exact newEventStore r 0"
    by (rule exact_fresh) (simp_all add: newEventStore_def)
  have b: "exact (clearRoomEvents s0 r) r 0"
    by (rule exact_fresh) (simp_all add: clearRoomEvents_def resetSequence_def)
  show ?thesis
    using exact_run [OF a nd] exact_run [OF b nd] exact_log by fastforce
qed

theorem C4_no_reuse_no_skips_witness:
  "\<not> list_ex (disturbs ''room-1'')
       [AddEvent ''room-1'' (exampleEvent ''a'' (Some 42)) 10,
        AddEvent ''room-2'' (exampleEvent ''b'' None) 11,
        ClearRoomEvents ''room-2'',
        Sequencer (NextSequence ''room-2''),
        AddEvent ''room-1'' (exampleEvent ''b'' (Some 1)) 12] \<and>
   (\<exists>s. run newEventStore
       [AddEvent ''room-1'' (exampleEvent ''a'' (Some 42)) 10,
        AddEvent ''room-2'' (exampleEvent ''b'' None) 11,
        ClearRoomEvents ''room-2'',
        Sequencer (NextSequence ''room-2''),
        AddEvent ''room-1'' (exampleEvent ''b'' (Some 1)) 12] = Inr s \<and>
      map sequence (getEvents s ''room-1'') = [Some 1, Some 2] \<and>
      length (getEvents s ''room-1'') = 2) \<and>
   (\<exists>s. run (clearRoomEvents newEventStore ''room-1'')
       [AddEvent ''room-1'' (exampleEvent ''a'' (Some 42)) 10,
        AddEvent ''room-2'' (exampleEvent ''b'' None) 11,
        ClearRoomEvents ''room-2'',
        Sequencer (NextSequence ''room-2''),
        AddEvent ''room-1'' (exampleEvent ''b'' (Some 1)) 12] = Inr s \<and>
      map sequence (getEvents s ''room-1'') = [Some 1, Some 2] \<and>
      length (getEvents s ''room-1'') = 2)"
proof -
  let ?calls = "[AddEvent ''room-1'' (exampleEvent ''a'' (Some 42)) 10,
        AddEvent ''room-2'' (exampleEvent ''b'' None) 11,
        ClearRoomEvents ''room-2'',
        Sequencer (NextSequence ''room-2''),
        AddEvent ''room-1'' (exampleEvent ''b'' (Some 1)) 12]"
  have h: "\<not> list_ex (disturbs ''room-1'') ?calls" by simp
  have n: "length (filter (is_add ''room-1'') ?calls) = 2" by simp
  have u: "map Some [1 .. int 2] = [Some 1, Some 2]" by (simp add: upto_rec1)
  show ?thesis
    using h C4_no_reuse_no_skips [OF h, of newEventStore] unfolding n u by blast
qed

text \<open>
  Claim C5 (stamping frame). In every state, \<^verbatim>\<open>addEvent(r, e)\<close> returns; the returned event
  is \<open>e\<close> with the fields \<open>sequence\<close> and \<open>timestamp\<close> replaced and every other field
  (payload with the event type, user id, room id) as in \<open>e\<close>. Its sequence is the number
  that \<^verbatim>\<open>getNextSequence(r)\<close> returns in this state, its timestamp is the time of the
  admission, the sequencer is left as that call of \<^verbatim>\<open>getNextSequence\<close> leaves it, and the
  returned event is in the log of \<open>r\<close>.
\<close>

theorem C5_stamping_frame:
  "\<exists>s' e'. addEvent s r e now = Inr (s', e') \<and>
     e' = e\<lparr>sequence := Some (fst (getNextSequence (sequenceManager s) r)), timestamp := now\<rparr> \<and>
     payload e' = payload e \<and>
     WhiteboardEvent.userId e' = WhiteboardEvent.userId e \<and>
     roomId e' = roomId e \<and>
     sequence e' = Some (fst (getNextSequence (sequenceManager s) r)) \<and>
     timestamp e' = now \<and>
     sequenceManager s' = snd (getNextSequence (sequenceManager s) r) \<and>
     e' \<in> set (getEvents s' r)"
proof -
  obtain i where "addEvent s r e now =
       Inr (\<lparr>events = (events s)(r \<mapsto> splice0 (getEvents s r) i
                (e\<lparr>sequence := Some (or0 (sequenceManager s r) + 1), timestamp := now\<rparr>)),
             sequenceManager = (sequenceManager s)(r \<mapsto> or0 (sequenceManager s r) + 1)\<rparr>,
            e\<lparr>sequence := Some (or0 (sequenceManager s r) + 1), timestamp := now\<rparr>)"
    using addEvent_result [of s r e now] by blast
  then show ?thesis
    by (simp add: fst_getNextSequence snd_getNextSequence set_splice0
        getEvents_def [of "\<lparr>events = _, sequenceManager = _\<rparr>"])
qed

text \<open>
  Claim C6 (clear resets to the fresh state). In every state, after \<^verbatim>\<open>clearRoomEvents(r)\<close>
  the log of \<open>r\<close> is empty, the current sequence of \<open>r\<close> is \<open>0\<close>, the next \<^verbatim>\<open>addEvent(r, e)\<close>
  is stamped with sequence \<open>1\<close> and is then the only event of the log, and the entries of
  \<open>r\<close> in both maps are those of a new store.
\<close>

theorem C6_clear_resets:
  "getEvents (clearRoomEvents s r) r = [] \<and>
   getCurrentSequence (sequenceManager (clearRoomEvents s r)) r = 0 \<and>
   (\<exists>s' e'. addEvent (clearRoomEvents s r) r e now = Inr (s', e') \<and>
            sequence e' = Some 1 \<and> getEvents s' r = [e']) \<and>
   events (clearRoomEvents s r) r = events newEventStore r \<and>
   sequenceManager (clearRoomEvents s r) r = sequenceManager newEventStore r"
proof -
  let ?c = "clearRoomEvents s r"
  have ev: "events ?c r = None" and sq: "sequenceManager ?c r = None"
    by (simp_all add: clearRoomEvents_def resetSequence_def)
  have ge: "getEvents ?c r = []" using ev by (simp add: getEvents_def)
  obtain i where "i \<le> length (getEvents ?c r)" and "addEvent ?c r e now =
       Inr (\<lparr>events = (events ?c)(r \<mapsto> splice0 (getEvents ?c r) i
                (e\<lparr>sequence := Some (or0 (sequenceManager ?c r) + 1), timestamp := now\<rparr>)),
             sequenceManager = (sequenceManager ?c)(r \<mapsto> or0 (sequenceManager ?c r) + 1)\<rparr>,
            e\<lparr>sequence := Some (or0 (sequenceManager ?c r) + 1), timestamp := now\<rparr>)"
    using addEvent_result [of ?c r e now] by blast
  then have "\<exists>s' e'. addEvent ?c r e now = Inr (s', e') \<and>
            sequence e' = Some 1 \<and> getEvents s' r = [e']"
    unfolding ge sq
    by (simp add: or0_eq splice0_def getEvents_def [of "\<lparr>events = _, sequenceManager = _\<rparr>"])
  then show ?thesis
    using ge ev sq by (simp add: getCurrentSequence_def or0_eq newEventStore_def)
qed

lemma step_keeps_unknown:
  assumes "events s r = None" and "\<not> is_add r c" and "step s c = Inr s'"
  shows "events s' r = None"
proof (cases c)
  case (AddEvent room e now)
  then obtain e' where a: "addEvent s room e now = Inr (s', e')" and "room \<noteq> r"
    using assms(2,3) by (auto split: sum.splits)
  then show ?thesis using addEvent_other [OF a] assms(1) by simp
next
  case (ClearRoomEvents room)
  then show ?thesis using assms by (auto simp: clearRoomEvents_def)
next
  case (Sequencer q)
  then show ?thesis using assms by auto
qed

lemma run_keeps_unknown:
  "events s r = None \<Longrightarrow> \<not> list_ex (is_add r) cs \<Longrightarrow> run s cs = Inr s' \<Longrightarrow> events s' r = None"
proof (induction cs arbitrary: s)
  case Nil
  then show ?case by simp
next
  case (Cons c cs)
  obtain s1 where s1: "step s c = Inr s1" using step_total by blast
  have "events s1 r = None" using step_keeps_unknown [OF Cons.prems(1) _ s1] Cons.prems(2) by simp
  then show ?case using Cons.IH [of s1] Cons.prems s1 by simp
qed

text \<open>
  Claim C7 (not-found is empty, never an error). No history of calls throws, from any
  state. After a history from a new store without any \<^verbatim>\<open>addEvent(r, ...)\<close>, both
  \<^verbatim>\<open>getEvents(r)\<close> and \<^verbatim>\<open>getEventsAfter(r, k)\<close>, for every \<open>k\<close> (also \<^verbatim>\<open>NaN\<close>), are empty.
\<close>

theorem C7_not_found_is_empty:
  "(\<exists>s. run s0 calls = Inr s) \<and>
   (\<exists>s. run newEventStore calls = Inr s \<and>
        (\<not> list_ex (is_add r) calls \<longrightarrow> getEvents s r = [] \<and> getEventsAfter s r k = []))"
proof
  show "\<exists>s. run s0 calls = Inr s" using run_total .
next
  obtain s where s: "run newEventStore calls = Inr s" using run_total by blast
  have "\<not> list_ex (is_add r) calls \<longrightarrow> getEvents s r = [] \<and> getEventsAfter s r k = []"
  proof
    assume "\<not> list_ex (is_add r) calls"
    then have "events s r = None"
      using run_keeps_unknown [of newEventStore r calls s] s by (simp add: newEventStore_def)
    then show "getEvents s r = [] \<and> getEventsAfter s r k = []"
      by (simp add: getEvents_def getEventsAfter_def)
  qed
  then show "\<exists>s. run newEventStore calls = Inr s \<and>
        (\<not> list_ex (is_add r) calls \<longrightarrow> getEvents s r = [] \<and> getEventsAfter s r k = [])"
    using s by blast
qed

theorem C7_not_found_is_empty_witness:
  "\<not> list_ex (is_add ''room-2'')
       [AddEvent ''room-1'' (exampleEvent ''a'' None) 10, ClearRoomEvents ''room-2''] \<and>
   (\<exists>s. run newEventStore
       [AddEvent ''room-1'' (exampleEvent ''a'' None) 10, ClearRoomEvents ''room-2''] = Inr s \<and>
      getEvents s ''room-2'' = [] \<and> getEventsAfter s ''room-2'' (Num 0) = [])"
  using C7_not_found_is_empty [of newEventStore
       "[AddEvent ''room-1'' (exampleEvent ''a'' None) 10, ClearRoomEvents ''room-2'']"
       "''room-2''" "Num 0"]
  by simp

subsection \<open>The handler of \<^verbatim>\<open>GET /:roomId\<close>\<close>

lemma getEventsAfter_sequence:
  "\<forall>e \<in> set (getEventsAfter s r k). sequence e \<noteq> None"
  by (auto simp: getEventsAfter_def split: option.splits)

lemma lastSequence_ok:
  assumes "\<forall>e \<in> set evs. sequence e \<noteq> None"
  shows "if evs = [] then or0 (if evs = [] then None else sequence (last evs)) = 0
         else sequence (last evs) = Some (or0 (if evs = [] then None else sequence (last evs)))"
proof (cases "evs = []")
  case True
  then show ?thesis by (simp add: or0_def)
next
  case False
  then have "last evs \<in> set evs" by simp
  then obtain n where "sequence (last evs) = Some n" using assms by blast
  then show ?thesis using False by (simp add: or0_eq)
qed

text \<open>
  Claim C8 (HTTP read-path shape). After any history of calls from a new store, and for
  every function \<^verbatim>\<open>parseInt\<close>, the handler replies with the room id and with events of the
  room. Without the parameter \<^verbatim>\<open>after\<close> these are all the events of the room. With a value
  that is not empty they are \<^verbatim>\<open>getEventsAfter(roomId, parseInt(after))\<close>; when \<^verbatim>\<open>parseInt(after)\<close>
  is the integer \<open>k\<close>, the given sequence, they are exactly the events of the room whose
  sequence is greater than \<open>k\<close>. With the empty value (\<^verbatim>\<open>?after=\<close>), which gives no sequence
  and for which \<^verbatim>\<open>if (after)\<close> is false, they are all the events of the room, and these are
  the events after \<open>0\<close>. In every case \<open>count\<close> is the length of the list of events in the
  reply, and \<open>lastSequence\<close> is the sequence of its last element, or \<open>0\<close> when it is empty.
\<close>

theorem C8_http_read_path:
  "\<exists>s. run newEventStore calls = Inr s \<and>
     reply_roomId (getRoomEvents parseInt s r after) = r \<and>
     reply_events (getRoomEvents parseInt s r None) = getEvents s r \<and>
     (a \<noteq> [] \<longrightarrow>
        reply_events (getRoomEvents parseInt s r (Some a)) = getEventsAfter s r (parseInt a)) \<and>
     (a \<noteq> [] \<and> parseInt a = Num k \<longrightarrow>
        reply_events (getRoomEvents parseInt s r (Some a)) =
          filter (\<lambda>e. case sequence e of None \<Rightarrow> False | Some n \<Rightarrow> k < n) (getEvents s r)) \<and>
     reply_events (getRoomEvents parseInt s r (Some [])) = getEvents s r \<and>
     reply_events (getRoomEvents parseInt s r (Some [])) = getEventsAfter s r (Num 0) \<and>
     count (getRoomEvents parseInt s r after) =
       length (reply_events (getRoomEvents parseInt s r after)) \<and>
     (if reply_events (getRoomEvents parseInt s r after) = []
      then lastSequence (getRoomEvents parseInt s r after) = 0
      else sequence (last (reply_events (getRoomEvents parseInt s r after))) =
             Some (lastSequence (getRoomEvents parseInt s r after)))"
proof -
  obtain s where s: "run newEventStore calls = Inr s" "wf_store s" using run_new by blast
  define evs where "evs = (case after of
                   None \<Rightarrow> getEvents s r
                 | Some v \<Rightarrow> if v \<noteq> [] then getEventsAfter s r (parseInt v)
                            else getEvents s r)"
  have rep: "getRoomEvents parseInt s r after =
      \<lparr>reply_roomId = r, reply_events = evs, count = length evs,
       lastSequence = or0 (if evs = [] then None else sequence (last evs))\<rparr>"
    by (simp add: getRoomEvents_def evs_def Let_def)
  have "\<forall>e \<in> set (getEvents s r). sequence e \<noteq> None"
    using wf_sequences(3) [OF s(2), of r] by auto
  then have "\<forall>e \<in> set evs. sequence e \<noteq> None"
    using getEventsAfter_sequence [of s r] by (auto simp: evs_def split: option.splits if_splits)
  then have l: "if evs = [] then or0 (if evs = [] then None else sequence (last evs)) = 0
         else sequence (last evs) = Some (or0 (if evs = [] then None else sequence (last evs)))"
    by (rule lastSequence_ok)
  show ?thesis
  proof (intro exI [of _ s] conjI)
    show "run newEventStore calls = Inr s" by fact
    show "reply_roomId (getRoomEvents parseInt s r after) = r" by (simp add: rep)
    show "reply_events (getRoomEvents parseInt s r None) = getEvents s r"
      by (simp add: getRoomEvents_def Let_def)
    show "a \<noteq> [] \<longrightarrow>
        reply_events (getRoomEvents parseInt s r (Some a)) = getEventsAfter s r (parseInt a)"
      by (simp add: getRoomEvents_def Let_def)
    show "a \<noteq> [] \<and> parseInt a = Num k \<longrightarrow>
        reply_events (getRoomEvents parseInt s r (Some a)) =
          filter (\<lambda>e. case sequence e of None \<Rightarrow> False | Some n \<Rightarrow> k < n) (getEvents s r)"
      using getEventsAfter_wf [OF s(2), of r k] by (simp add: getRoomEvents_def Let_def)
    show "reply_events (getRoomEvents parseInt s r (Some [])) = getEvents s r"
      by (simp add: getRoomEvents_def Let_def)
    show "reply_events (getRoomEvents parseInt s r (Some [])) = getEventsAfter s r (Num 0)"
      using getEventsAfter_0_wf [OF s(2), of r] by (simp add: getRoomEvents_def Let_def)
    show "count (getRoomEvents parseInt s r after) =
       length (reply_events (getRoomEvents parseInt s r after))"
      by (simp add: rep)
    show "if reply_events (getRoomEvents parseInt s r after) = []
      then lastSequence (getRoomEvents parseInt s r after) = 0
      else sequence (last (reply_events (getRoomEvents parseInt s r after))) =
             Some (lastSequence (getRoomEvents parseInt s r after))"
      using l by (cases "evs = []") (simp_all add: rep)
  qed
qed

text \<open>
  The witness: three events are admitted to \<^verbatim>\<open>room-1\<close>, the request is
  \<^verbatim>\<open>GET /room-1?after=1\<close>, and the function taken for \<^verbatim>\<open>parseInt\<close> gives \<open>1\<close> for that value, as
  the built-in does. The reply carries the events 2 and 3, \<open>count\<close> is 2 and \<open>lastSequence\<close>
  is 3; for \<^verbatim>\<open>?after=\<close> and without the parameter the reply carries all three events.
\<close>

theorem C8_http_read_path_witness:
  "''1'' \<noteq> '''' \<and>
   (\<lambda>v. if v = ''1'' then Num 1 else NaN) ''1'' = Num 1 \<and>
   (\<exists>s. run newEventStore
          [AddEvent ''room-1'' (exampleEvent ''a'' None) 10,
           AddEvent ''room-1'' (exampleEvent ''b'' (Some 9)) 11,
           AddEvent ''room-1'' (exampleEvent ''a'' None) 12] = Inr s \<and>
        map sequence (getEvents s ''room-1'') = [Some 1, Some 2, Some 3] \<and>
        map sequence (reply_events (getRoomEvents (\<lambda>v. if v = ''1'' then Num 1 else NaN)
                                      s ''room-1'' (Some ''1''))) = [Some 2, Some 3] \<and>
        count (getRoomEvents (\<lambda>v. if v = ''1'' then Num 1 else NaN)
                 s ''room-1'' (Some ''1'')) = 2 \<and>
        lastSequence (getRoomEvents (\<lambda>v. if v = ''1'' then Num 1 else NaN)
                        s ''room-1'' (Some ''1'')) = 3 \<and>
        reply_events (getRoomEvents (\<lambda>v. if v = ''1'' then Num 1 else NaN)
                        s ''room-1'' (Some '''')) = getEvents s ''room-1'' \<and>
        reply_events (getRoomEvents (\<lambda>v. if v = ''1'' then Num 1 else NaN)
                        s ''room-1'' None) = getEvents s ''room-1'')"
proof -
  let ?calls = "[AddEvent ''room-1'' (exampleEvent ''a'' None) 10,
           AddEvent ''room-1'' (exampleEvent ''b'' (Some 9)) 11,
           AddEvent ''room-1'' (exampleEvent ''a'' None) 12]"
  let ?p = "\<lambda>v. if v = ''1'' then Num 1 else NaN"
  let ?after = "\<lambda>e. case sequence e of None \<Rightarrow> False | Some n \<Rightarrow> (1::int) < n"
  have a: "''1'' \<noteq> ''''" by simp
  have p: "?p ''1'' = Num 1" by simp
  obtain s where run: "run newEventStore ?calls = Inr s"
    and r1: "reply_events (getRoomEvents ?p s ''room-1'' None) = getEvents s ''room-1''"
    and r2: "''1'' \<noteq> '''' \<and> ?p ''1'' = Num 1 \<longrightarrow>
        reply_events (getRoomEvents ?p s ''room-1'' (Some ''1'')) =
          filter ?after (getEvents s ''room-1'')"
    and r3: "reply_events (getRoomEvents ?p s ''room-1'' (Some '''')) = getEvents s ''room-1''"
    and r4: "count (getRoomEvents ?p s ''room-1'' (Some ''1'')) =
       length (reply_events (getRoomEvents ?p s ''room-1'' (Some ''1'')))"
    and r5: "if reply_events (getRoomEvents ?p s ''room-1'' (Some ''1'')) = []
      then lastSequence (getRoomEvents ?p s ''room-1'' (Some ''1'')) = 0
      else sequence (last (reply_events (getRoomEvents ?p s ''room-1'' (Some ''1'')))) =
             Some (lastSequence (getRoomEvents ?p s ''room-1'' (Some ''1'')))"
    using C8_http_read_path [where calls = ?calls and parseInt = ?p and r = "''room-1''"
        and after = "Some ''1''" and a = "''1''" and k = 1]
    by blast
  have "exact newEventStore ''room-1'' 0"
    by (rule exact_fresh) (simp_all add: newEventStore_def)
  then obtain s' where run': "run newEventStore ?calls = Inr s'"
    and ex: "exact s' ''room-1'' (0 + length (filter (is_add ''room-1'') ?calls))"
    using exact_run [of newEventStore "''room-1''" 0 ?calls] by auto
  have n: "length (filter (is_add ''room-1'') ?calls) = 3" by simp
  have "s' = s" using run' [unfolded run] by simp
  then have "exact s ''room-1'' 3" using ex [unfolded n] by simp
  then have all: "map sequence (getEvents s ''room-1'') = [Some 1, Some 2, Some 3]"
    using exact_log [of s "''room-1''" 3] by (simp add: upto_rec1)
  have evs: "reply_events (getRoomEvents ?p s ''room-1'' (Some ''1'')) =
      filter ?after (getEvents s ''room-1'')"
    using r2 a p by blast
  have "map sequence (filter ?after (getEvents s ''room-1'')) =
      filter (\<lambda>v. case v of None \<Rightarrow> False | Some n \<Rightarrow> (1::int) < n)
        (map sequence (getEvents s ''room-1''))"
    by (simp add: filter_map comp_def)
  then have some: "map sequence (reply_events (getRoomEvents ?p s ''room-1'' (Some ''1''))) =
      [Some 2, Some 3]"
    unfolding evs all by simp
  then have len: "length (reply_events (getRoomEvents ?p s ''room-1'' (Some ''1''))) = 2"
    using length_map [of sequence "reply_events (getRoomEvents ?p s ''room-1'' (Some ''1''))"]
    by simp
  then have ne: "reply_events (getRoomEvents ?p s ''room-1'' (Some ''1'')) \<noteq> []" by auto
  have "sequence (last (reply_events (getRoomEvents ?p s ''room-1'' (Some ''1'')))) =
      last (map sequence (reply_events (getRoomEvents ?p s ''room-1'' (Some ''1''))))"
    using ne by (simp add: last_map)
  then have "sequence (last (reply_events (getRoomEvents ?p s ''room-1'' (Some ''1'')))) = Some 3"
    unfolding some by simp
  then have lst: "lastSequence (getRoomEvents ?p s ''room-1'' (Some ''1'')) = 3"
    using r5 ne by simp
  have cnt: "count (getRoomEvents ?p s ''room-1'' (Some ''1'')) = 2"
    using r4 len by (rule trans)
  show ?thesis
    by (intro conjI exI [of _ s]) (rule a p run all some cnt lst r3 r1)+
qed

subsection \<open>PresenceStore\<close>

lemma contained_step: "contained s \<Longrightarrow> contained (presence_step s c)"
  by (cases c)
     (auto simp: contained_def addUser_def removeUser_def updateCursor_def clearAll_def Let_def
           split: if_splits)

lemma contained_run: "contained s \<Longrightarrow> contained (presence_run s cs)"
  by (induction cs arbitrary: s) (simp_all add: contained_step)

lemma contained_new: "contained newPresenceStore"
  by (simp add: contained_def newPresenceStore_def)

lemma removeUser_absent:
  assumes "contained s" and "activeUsers s uid = None"
  shows "removeUser s uid = s"
proof -
  have "userCursors s uid = None" using assms by (auto simp: contained_def)
  then show ?thesis using assms(2) by (cases s) (simp add: removeUser_def fun_upd_idem)
qed

text \<open>
  Claim C9 (idempotent leave). \<^verbatim>\<open>removeUser\<close> has no place that throws (it is a total
  function of the state). After any history of calls from a new presence store, removing
  a user who is not in the active-users map leaves both maps as they are. And in every
  state, removing user \<open>uid\<close> leaves the entries of every other user in both maps as they
  are.
\<close>

theorem C9_idempotent_leave:
  "(activeUsers (presence_run newPresenceStore calls) uid = None \<longrightarrow>
      removeUser (presence_run newPresenceStore calls) uid = presence_run newPresenceStore calls) \<and>
   (other \<noteq> uid \<longrightarrow>
      activeUsers (removeUser s uid) other = activeUsers s other \<and>
      userCursors (removeUser s uid) other = userCursors s other)"
  using removeUser_absent [OF contained_run [OF contained_new], of calls uid]
  by (simp add: removeUser_def)

theorem C9_idempotent_leave_witness:
  "activeUsers (presence_run newPresenceStore
     [AddUser ''alice'' ''Alice'' None 100, UpdateCursor ''alice'' 3 4 101,
      UpdateCursor ''bob'' 5 6 102]) ''bob'' = None \<and>
   removeUser (presence_run newPresenceStore
     [AddUser ''alice'' ''Alice'' None 100, UpdateCursor ''alice'' 3 4 101,
      UpdateCursor ''bob'' 5 6 102]) ''bob'' =
   presence_run newPresenceStore
     [AddUser ''alice'' ''Alice'' None 100, UpdateCursor ''alice'' 3 4 101,
      UpdateCursor ''bob'' 5 6 102] \<and>
   ''bob'' \<noteq> ''alice'' \<and>
   activeUsers (removeUser (presence_run newPresenceStore
     [AddUser ''alice'' ''Alice'' None 100, AddUser ''bob'' ''Bob'' (Some ''#000000'') 101,
      UpdateCursor ''bob'' 5 6 102]) ''alice'') ''bob'' =
   activeUsers (presence_run newPresenceStore
     [AddUser ''alice'' ''Alice'' None 100, AddUser ''bob'' ''Bob'' (Some ''#000000'') 101,
      UpdateCursor ''bob'' 5 6 102]) ''bob'' \<and>
   userCursors (removeUser (presence_run newPresenceStore
     [AddUser ''alice'' ''Alice'' None 100, AddUser ''bob'' ''Bob'' (Some ''#000000'') 101,
      UpdateCursor ''bob'' 5 6 102]) ''alice'') ''bob'' =
   userCursors (presence_run newPresenceStore
     [AddUser ''alice'' ''Alice'' None 100, AddUser ''bob'' ''Bob'' (Some ''#000000'') 101,
      UpdateCursor ''bob'' 5 6 102]) ''bob''"
proof -
  let ?h = "[AddUser ''alice'' ''Alice'' None 100, UpdateCursor ''alice'' 3 4 101,
      UpdateCursor ''bob'' 5 6 102]"
  let ?s = "presence_run newPresenceStore
     [AddUser ''alice'' ''Alice'' None 100, AddUser ''bob'' ''Bob'' (Some ''#000000'') 101,
      UpdateCursor ''bob'' 5 6 102]"
  have a: "activeUsers (presence_run newPresenceStore ?h) ''bob'' = None"
    by (simp add: newPresenceStore_def addUser_def updateCursor_def)
  have b: "''bob'' \<noteq> ''alice''" by simp
  show ?thesis
    using a b C9_idempotent_leave [where calls = ?h and uid = "''bob''"]
      C9_idempotent_leave [where uid = "''alice''" and other = "''bob''" and s = ?s] by blast
qed

text \<open>
  Claim C10 (cursor containment). After any history of calls from a new presence store,
  every user with a cursor entry is an active user, and each single call keeps it so from
  any state where it holds. \<^verbatim>\<open>updateCursor\<close> changes nothing for a user who is not active;
  \<^verbatim>\<open>addUser\<close> never touches the cursors and changes nothing for a user who is active already,
  whose entry (name, colour, join time) stays; \<^verbatim>\<open>removeUser\<close> deletes both entries of the
  user; \<^verbatim>\<open>clearAll\<close> empties both maps.
\<close>

theorem C10_cursor_containment:
  "dom (userCursors (presence_run newPresenceStore calls))
     \<subseteq> dom (activeUsers (presence_run newPresenceStore calls)) \<and>
   (dom (userCursors s) \<subseteq> dom (activeUsers s) \<longrightarrow>
      dom (userCursors (presence_step s c)) \<subseteq> dom (activeUsers (presence_step s c))) \<and>
   (activeUsers s absent = None \<longrightarrow> updateCursor s absent x y now = s) \<and>
   userCursors (addUser s uid name col now) = userCursors s \<and>
   (activeUsers s present = Some p \<longrightarrow>
      addUser s present name col now = s \<and>
      activeUsers (addUser s present name col now) present = Some p) \<and>
   activeUsers (removeUser s uid) uid = None \<and>
   userCursors (removeUser s uid) uid = None \<and>
   activeUsers (clearAll s) = Map.empty \<and>
   userCursors (clearAll s) = Map.empty"
proof (intro conjI)
  show "dom (userCursors (presence_run newPresenceStore calls))
     \<subseteq> dom (activeUsers (presence_run newPresenceStore calls))"
    using contained_run [OF contained_new, of calls] by (simp add: contained_def)
  show "dom (userCursors s) \<subseteq> dom (activeUsers s) \<longrightarrow>
      dom (userCursors (presence_step s c)) \<subseteq> dom (activeUsers (presence_step s c))"
    using contained_step [of s c] by (simp add: contained_def)
qed (simp_all add: updateCursor_def addUser_def removeUser_def clearAll_def Let_def)

theorem C10_cursor_containment_witness:
  "dom (userCursors (addUser newPresenceStore ''alice'' ''Alice'' None 100))
     \<subseteq> dom (activeUsers (addUser newPresenceStore ''alice'' ''Alice'' None 100)) \<and>
   dom (userCursors (presence_step (addUser newPresenceStore ''alice'' ''Alice'' None 100)
                       (UpdateCursor ''bob'' 5 6 102)))
     \<subseteq> dom (activeUsers (presence_step (addUser newPresenceStore ''alice'' ''Alice'' None 100)
                       (UpdateCursor ''bob'' 5 6 102))) \<and>
   activeUsers (addUser newPresenceStore ''alice'' ''Alice'' None 100) ''bob'' = None \<and>
   updateCursor (addUser newPresenceStore ''alice'' ''Alice'' None 100) ''bob'' 5 6 102 =
     addUser newPresenceStore ''alice'' ''Alice'' None 100 \<and>
   activeUsers (addUser newPresenceStore ''alice'' ''Alice'' None 100) ''alice'' =
     Some \<lparr>userId = ''alice'', userName = ''Alice'', color = getUserColor ''alice'',
           joinedAt = 100\<rparr> \<and>
   addUser (addUser newPresenceStore ''alice'' ''Alice'' None 100)
       ''alice'' ''Alicia'' (Some ''#000000'') 102 =
     addUser newPresenceStore ''alice'' ''Alice'' None 100 \<and>
   activeUsers (addUser (addUser newPresenceStore ''alice'' ''Alice'' None 100)
       ''alice'' ''Alicia'' (Some ''#000000'') 102) ''alice'' =
     Some \<lparr>userId = ''alice'', userName = ''Alice'', color = getUserColor ''alice'',
           joinedAt = 100\<rparr>"
proof -
  let ?s = "addUser newPresenceStore ''alice'' ''Alice'' None 100"
  let ?p = "\<lparr>userId = ''alice'', userName = ''Alice'', color = getUserColor ''alice'',
             joinedAt = 100\<rparr>"
  have a: "activeUsers ?s ''bob'' = None"
    by (simp add: newPresenceStore_def addUser_def)
  have b: "activeUsers ?s ''alice'' = Some ?p"
    by (simp add: newPresenceStore_def addUser_def)
  have c: "dom (userCursors ?s) \<subseteq> dom (activeUsers ?s)"
    by (simp add: newPresenceStore_def addUser_def)
  show ?thesis
    using a b c
      C10_cursor_containment [where calls = "[]" and s = ?s
        and c = "UpdateCursor ''bob'' 5 6 102" and absent = "''bob''" and x = 5 and y = 6
        and now = 102 and uid = "''alice''" and name = "''Alicia''"
        and col = "Some ''#000000''" and present = "''alice''" and p = ?p]
    by blast
qed

end
